theory Spec2Isabelle
  imports Main
begin

section \<open>JavaScript values and containers used by \<open>derive.ts\<close>\<close>

text \<open>
  The type parameter \<open>T\<close> of \<open>derive\<close> is \<open>T extends any\<close>, and the source stores are
  \<open>Store<any>\<close>: a state may be \<open>null\<close> or \<open>undefined\<close>. Both are kept apart from
  proper values, because the fan-out uses the nullish coalescing operator.
\<close>

datatype 'a jsval = Null | Undefined | Val 'a

text \<open>The operator \<open>a ?? b\<close>: \<open>b\<close> when \<open>a\<close> is \<open>null\<close> or \<open>undefined\<close>, else \<open>a\<close>.\<close>

fun coalesce :: "'a jsval \<Rightarrow> 'a jsval \<Rightarrow> 'a jsval" where
  "coalesce Null b = b"
| "coalesce Undefined b = b"
| "coalesce (Val a) b = Val a"

text \<open>
  The assignment \<open>xs[i] = v\<close> on a JavaScript array: in range it replaces the slot, out
  of range it extends the array, the slots in between reading \<open>undefined\<close>.
\<close>

definition js_array_set :: "'a jsval list \<Rightarrow> nat \<Rightarrow> 'a jsval \<Rightarrow> 'a jsval list" where
  "js_array_set xs i v =
     (if i < length xs then xs[i := v]
      else xs @ replicate (i - length xs) Undefined @ [v])"

text \<open>
  A JavaScript \<open>Set\<close> iterates in insertion order and holds a value at most once: it is
  a list in insertion order. \<open>set_add\<close> is \<open>Set.prototype.add\<close>, \<open>new_Set\<close> is the
  constructor \<open>new Set(iterable)\<close>, which adds the elements one after the other,
  \<open>set_delete\<close> is \<open>Set.prototype.delete\<close>.
\<close>

definition set_add :: "'a list \<Rightarrow> 'a \<Rightarrow> 'a list" where
  "set_add s x = (if x \<in> set s then s else s @ [x])"

definition new_Set :: "'a list \<Rightarrow> 'a list" where
  "new_Set xs = fold (\<lambda>x s. set_add s x) xs []"

definition set_delete :: "'a list \<Rightarrow> 'a \<Rightarrow> 'a list" where
  "set_delete s x = removeAll x s"

text \<open>
  Arrays are objects: the two dependency tuples of the bookkeeping store are references.
  The heap is the list of the arrays allocated so far, an address is a position in it,
  and allocation appends. A reference of the program always points to an allocated
  array; \<open>wellformed\<close> below says so, and it holds in every world a run reaches.
\<close>

type_synonym addr = nat

type_synonym 'd heap = "'d jsval list list"

definition alloc :: "'d jsval list \<Rightarrow> 'd heap \<Rightarrow> addr \<times> 'd heap" where
  "alloc arr h = (length h, h @ [arr])"

section \<open>Errors\<close>

text \<open>
  \<open>SetStateError\<close> is the error class imported by \<open>derive.ts\<close>; \<open>Thrown\<close> is any
  other value thrown by the \<open>onChange\<close> callback.
\<close>

datatype 'e error = SetStateError string | Thrown 'e

section \<open>The bookkeeping store and the world\<close>

text \<open>
  The state object given to \<open>createObjectStore\<close> (lines 47 to 80). A listener is a
  function value, compared by identity: it is modelled by an identifier of type \<open>'l\<close>.
  \<open>depsSubs\<close> holds the unsubscribe handlers of the source stores, one per source; the
  handler of source \<open>i\<close> is modelled by \<open>i\<close>.
\<close>

record ('t, 'l) bookkeeping =
  listeners :: "'l list"
  depsState :: addr
  prevDepsState :: "addr option"
  state :: "'t jsval"
  prevState :: "'t jsval"
  depsSubs :: "nat list"

text \<open>
  Modelled from the spec: the Base Store behind \<open>createObjectStore\<close> and behind the
  source stores is not part of \<open>derive.ts\<close>. By section 2 of the specification
  \<open>getState\<close> returns the held value, \<open>setState\<close> merges the given fields into it and
  notifies the listeners of that store, and \<open>subscribe\<close> registers a listener. The
  bookkeeping store is never subscribed to, so its \<open>setState\<close> is the record update.
  A source store is its current value; the one listener that \<open>derive\<close> registers on
  source \<open>i\<close> is the reaction with index \<open>i\<close>.

  The world holds the heap of arrays, the current values of the source stores, the
  bookkeeping store, and the log of the calls made to listeners of the derived store:
  listener, first argument, second argument, in the order of the calls.
\<close>

type_synonym 'd source_store = "'d jsval"

definition source_getState :: "'d source_store \<Rightarrow> 'd jsval" where
  "source_getState src = src"

record ('d, 't, 'l) world =
  heap :: "'d heap"
  sources :: "'d source_store list"
  store :: "('t, 'l) bookkeeping"
  calls :: "('l \<times> 't jsval \<times> 't jsval) list"

type_synonym ('d, 't, 'e) combine =
  "'d jsval list \<Rightarrow> 'd jsval list option \<Rightarrow> 't jsval \<Rightarrow> 'e error + 't jsval"

section \<open>\<open>derive\<close>\<close>

text \<open>
  Lines 45 to 113. The initial tuple is allocated by \<open>stores.map\<close>; \<open>onChange\<close> is
  called inside the initialiser of the bookkeeping store and a throw there leaves
  \<open>derive\<close> with that error; \<open>depsSubs\<close> is merged in afterwards.
\<close>

definition derive ::
  "'d source_store list \<Rightarrow> ('d, 't, 'e) combine \<Rightarrow> 'e error + ('d, 't, 'l) world" where
  "derive stores onChange =
     (let (initialDepsState, h) = alloc (map source_getState stores) [] in
      case onChange (h ! initialDepsState) None Null of
        Inl e \<Rightarrow> Inl e
      | Inr st \<Rightarrow>
          let s = \<lparr> listeners = new_Set [], depsState = initialDepsState,
                    prevDepsState = None, state = st, prevState = Null, depsSubs = [] \<rparr>;
              subs = map snd (zip stores [0 ..< length stores])
          in Inr \<lparr> heap = h, sources = stores, store = s \<lparr> depsSubs := subs \<rparr>,
                   calls = [] \<rparr>)"

text \<open>
  The unsubscribe closure returned by \<open>subscribe\<close> (lines 124 to 130) captures the
  listener it was made for. It deletes from the \<open>Set\<close> object that the store holds at
  the time of the call and writes the same object back, so the field holds the set
  without the listener.
\<close>

datatype 'l unsubscribe = Unsubscribe 'l

fun call_unsubscribe :: "'l unsubscribe \<Rightarrow> ('d, 't, 'l) world \<Rightarrow> ('d, 't, 'l) world" where
  "call_unsubscribe (Unsubscribe listener) w =
     (let ls = set_delete (listeners (store w)) listener
      in w \<lparr> store := (store w) \<lparr> listeners := ls \<rparr> \<rparr>)"

text \<open>
  The body of a listener is outside \<open>derive.ts\<close>. What it can do to the fan-out that
  calls it is given by a \<open>body\<close>: the unsubscribe closures it calls, in order, and
  the value it throws, if it throws. The behaviour of the listeners gives the body each
  listener runs when it is called with a new and a previous state. A listener that only
  observes has the body \<open>Body [] None\<close>. By section 5 of the specification a reaction
  runs to completion before another one starts, so a body does not set a source store.
\<close>

datatype ('l, 'e) body = Body (unsubscribes: "'l unsubscribe list") (throws: "'e error option")

type_synonym ('t, 'l, 'e) behaviour = "'l \<Rightarrow> 't jsval \<Rightarrow> 't jsval \<Rightarrow> ('l, 'e) body"

text \<open>
  \<open>store.getState().listeners.forEach\<close> (lines 104 to 109) iterates over the \<open>Set\<close>
  object held by the store, in insertion order, with no \<open>try\<close> around the calls. The list
  argument holds the elements of that object at the start, still to be visited. The
  object is the one the unsubscribe closures delete from: an element deleted before its
  turn is not visited. Only \<open>subscribe\<close> puts another object into the store, and no
  body calls it, so the store holds the iterated object during the whole iteration. A
  listener that throws ends the iteration, and the error leaves the reaction.
\<close>

fun listeners_forEach ::
  "('t, 'l, 'e) behaviour \<Rightarrow> 't jsval \<Rightarrow> 't jsval \<Rightarrow> 'l list \<Rightarrow> ('d, 't, 'l) world \<Rightarrow>
     ('e error + unit) \<times> ('d, 't, 'l) world" where
  "listeners_forEach beh newState prev [] w = (Inr (), w)"
| "listeners_forEach beh newState prev (listener # rest) w =
     (if listener \<in> set (listeners (store w))
      then let w1 = w \<lparr> calls := calls w @ [(listener, newState, prev)] \<rparr>;
               w2 = fold call_unsubscribe (unsubscribes (beh listener newState prev)) w1
           in case throws (beh listener newState prev) of
                Some e \<Rightarrow> (Inl e, w2)
              | None \<Rightarrow> listeners_forEach beh newState prev rest w2
      else listeners_forEach beh newState prev rest w)"

text \<open>
  The reaction subscribed to source \<open>index\<close> (lines 83 to 110). The spread
  \<open>[...currentDepsState]\<close> allocates a copy, the assignment writes into the copy, and
  \<open>onChange\<close> is called before anything is written to the bookkeeping store: when it
  throws, the reaction ends there, with the copy allocated and nothing else changed.
  The fan-out comes after the write of the four fields.
\<close>

definition reaction ::
  "('d, 't, 'e) combine \<Rightarrow> ('t, 'l, 'e) behaviour \<Rightarrow> nat \<Rightarrow> 'd jsval \<Rightarrow> 'd jsval \<Rightarrow>
     ('d, 't, 'l) world \<Rightarrow> ('e error + unit) \<times> ('d, 't, 'l) world" where
  "reaction onChange beh index depState prevDepState w =
     (let currentDepsState = depsState (store w);
          (newDepsState, h1) = alloc (heap w ! currentDepsState) (heap w);
          h2 = h1[newDepsState := js_array_set (h1 ! newDepsState) index depState];
          prevSt = state (store w)
      in case onChange (h2 ! newDepsState) (Some (h2 ! currentDepsState)) prevSt of
           Inl e \<Rightarrow> (Inl e, w \<lparr> heap := h2 \<rparr>)
         | Inr newState \<Rightarrow>
             let w1 = w \<lparr> heap := h2,
                          store := (store w) \<lparr> prevDepsState := Some currentDepsState,
                                               depsState := newDepsState,
                                               prevState := prevSt,
                                               state := newState \<rparr> \<rparr>
             in listeners_forEach beh newState (coalesce prevSt newState)
                  (listeners (store w1)) w1)"

text \<open>
  Modelled from the spec: \<open>setState\<close> of source store \<open>i\<close> (Base Store, section 6):
  the source takes the new value and notifies its listener, the reaction, with the new
  and the previous value; an error of the reaction reaches the caller. An index that
  names no source store changes nothing.
\<close>

definition source_setState ::
  "('d, 't, 'e) combine \<Rightarrow> ('t, 'l, 'e) behaviour \<Rightarrow> nat \<Rightarrow> 'd jsval \<Rightarrow>
     ('d, 't, 'l) world \<Rightarrow> ('e error + unit) \<times> ('d, 't, 'l) world" where
  "source_setState onChange beh i x w =
     (if i < length (sources w)
      then reaction onChange beh i x (sources w ! i) (w \<lparr> sources := (sources w)[i := x] \<rparr>)
      else (Inr (), w))"

section \<open>The facade returned by \<open>derive\<close>\<close>

text \<open>
  Lines 115 to 135. \<open>subscribe\<close> builds a new \<open>Set\<close> from the elements of the current
  one and the listener, and returns the unsubscribe closure for the listener.
  \<open>setState\<close> throws for every argument.
\<close>

definition getState :: "('d, 't, 'l) world \<Rightarrow> 't jsval" where
  "getState w = state (store w)"

definition subscribe ::
  "'l \<Rightarrow> ('d, 't, 'l) world \<Rightarrow> 'l unsubscribe \<times> ('d, 't, 'l) world" where
  "subscribe listener w =
     (let newListeners = new_Set (listeners (store w) @ [listener])
      in (Unsubscribe listener,
          w \<lparr> store := (store w) \<lparr> listeners := newListeners \<rparr> \<rparr>))"

definition setState ::
  "'a \<Rightarrow> ('d, 't, 'l) world \<Rightarrow> ('e error + unit) \<times> ('d, 't, 'l) world" where
  "setState arg w =
     (Inl (SetStateError ''`setState` is not available in derived store''), w)"

section \<open>Runs\<close>

text \<open>
  What a client can do with a derived store and its sources. A run performs the events
  in order; a client that catches the error of one call goes on with the world as that
  call left it.
\<close>

datatype ('d, 'l) event =
    SourceSet nat "'d jsval"
  | Subscribe 'l
  | CallUnsubscribe "'l unsubscribe"
  | SetState

fun exec ::
  "('d, 't, 'e) combine \<Rightarrow> ('t, 'l, 'e) behaviour \<Rightarrow> ('d, 'l) event \<Rightarrow>
     ('d, 't, 'l) world \<Rightarrow> ('d, 't, 'l) world" where
  "exec onChange beh (SourceSet i x) w = snd (source_setState onChange beh i x w)"
| "exec onChange beh (Subscribe l) w = snd (subscribe l w)"
| "exec onChange beh (CallUnsubscribe u) w = call_unsubscribe u w"
| "exec onChange beh SetState w =
     snd (setState () w :: ('e error + unit) \<times> ('d, 't, 'l) world)"

definition run ::
  "('d, 't, 'e) combine \<Rightarrow> ('t, 'l, 'e) behaviour \<Rightarrow> ('d, 'l) event list \<Rightarrow>
     ('d, 't, 'l) world \<Rightarrow> ('d, 't, 'l) world" where
  "run onChange beh evs w = fold (exec onChange beh) evs w"

fun is_source_update :: "('d, 'l) event \<Rightarrow> bool" where
  "is_source_update (SourceSet i x) = True"
| "is_source_update e = False"

section \<open>Properties of a world\<close>

text \<open>
  \<open>consistent\<close>: the derived value is \<open>onChange\<close> of the three bookkeeping fields
  \<open>depsState\<close>, \<open>prevDepsState\<close> and \<open>prevState\<close> as they are stored.
\<close>

definition consistent :: "('d, 't, 'e) combine \<Rightarrow> ('d, 't, 'l) world \<Rightarrow> bool" where
  "consistent onChange w =
     (onChange (heap w ! depsState (store w))
               (map_option (\<lambda>a. heap w ! a) (prevDepsState (store w)))
               (prevState (store w))
      = Inr (state (store w)))"

text \<open>
  \<open>wellformed n\<close>: both references point into the heap, the current tuple and the list
  of sources have \<open>n\<close> slots, and the listener set holds no listener twice.
\<close>

definition wellformed :: "nat \<Rightarrow> ('d, 't, 'l) world \<Rightarrow> bool" where
  "wellformed n w =
     (depsState (store w) < length (heap w) \<and>
      (case prevDepsState (store w) of None \<Rightarrow> True | Some a \<Rightarrow> a < length (heap w)) \<and>
      length (heap w ! depsState (store w)) = n \<and>
      length (sources w) = n \<and>
      distinct (listeners (store w)))"

text \<open>The calls of the log that went to listener \<open>l\<close>.\<close>

definition calls_to :: "'l \<Rightarrow> ('l \<times> 't jsval \<times> 't jsval) list \<Rightarrow> ('l \<times> 't jsval \<times> 't jsval) list" where
  "calls_to l cs = filter (\<lambda>c. fst c = l) cs"

section \<open>The example scenario\<close>

text \<open>
  Section 8 of the specification: two numeric source stores holding 2 and 3, combined
  by \<open>(deps) => deps[0] + deps[1]\<close>. \<open>example_world\<close> is the world that \<open>derive\<close>
  returns for them.
\<close>

fun num :: "int jsval \<Rightarrow> int" where
  "num (Val n) = n"
| "num Null = 0"
| "num Undefined = 0"

definition example_sum :: "(int, int, unit) combine" where
  "example_sum deps prevDeps prevSt = Inr (Val (num (deps ! 0) + num (deps ! 1)))"

definition example_world :: "(int, int, nat) world" where
  "example_world =
     \<lparr> heap = [[Val 2, Val 3]], sources = [Val 2, Val 3],
       store = \<lparr> listeners = [], depsState = 0, prevDepsState = None, state = Val 5,
                 prevState = Null, depsSubs = [0, 1] \<rparr>,
       calls = [] \<rparr>"

text \<open>
  A combine function that throws when its first source holds 0 and returns the value of
  the first source otherwise, and the world \<open>derive\<close> returns for one source holding 1.
\<close>

definition example_guarded :: "(int, int, unit) combine" where
  "example_guarded deps prevDeps prevSt =
     (if deps ! 0 = Val 0 then Inl (Thrown ()) else Inr (deps ! 0))"

definition guarded_world :: "(int, int, nat) world" where
  "guarded_world =
     \<lparr> heap = [[Val 1]], sources = [Val 1],
       store = \<lparr> listeners = [], depsState = 0, prevDepsState = None, state = Val 1,
                 prevState = Null, depsSubs = [0] \<rparr>,
       calls = [] \<rparr>"

text \<open>
  Three behaviours: every listener only observes; listener 7 calls the unsubscribe
  closure of listener 8 and returns; listener 7 throws.
\<close>

definition observers :: "('t, 'l, 'e) behaviour" where
  "observers l newState prev = Body [] None"

definition example_unsubscriber :: "(int, nat, unit) behaviour" where
  "example_unsubscriber l newState prev =
     (if l = 7 then Body [Unsubscribe 8] None else Body [] None)"

definition example_thrower :: "(int, nat, unit) behaviour" where
  "example_thrower l newState prev =
     (if l = 7 then Body [] (Some (Thrown ())) else Body [] None)"

section \<open>Sets and the fan-out\<close>

lemma fold_set_add_set: "set (fold (\<lambda>x s. set_add s x) xs acc) = set acc \<union> set xs"
  by (induction xs arbitrary: acc) (auto simp: set_add_def)

lemma fold_set_add_distinct: "distinct acc \<Longrightarrow> distinct (fold (\<lambda>x s. set_add s x) xs acc)"
  by (induction xs arbitrary: acc) (auto simp: set_add_def)

lemma fold_set_add_id: "distinct (acc @ xs) \<Longrightarrow> fold (\<lambda>x s. set_add s x) xs acc = acc @ xs"
  by (induction xs arbitrary: acc) (auto simp: set_add_def)

lemma new_Set_distinct: "distinct (new_Set xs)"
  by (simp add: new_Set_def fold_set_add_distinct)

lemma new_Set_set: "set (new_Set xs) = set xs"
  by (simp add: new_Set_def fold_set_add_set)

lemma new_Set_snoc: "new_Set (xs @ [x]) = set_add (new_Set xs) x"
  by (simp add: new_Set_def)

lemma new_Set_id: "distinct xs \<Longrightarrow> new_Set xs = xs"
  using fold_set_add_id [of "[]" xs] by (simp add: new_Set_def)

text \<open>
  Unsubscribe closures and the fan-out touch the listener set and the log only: the
  listener set loses elements, the log grows by calls to listeners of the set.
\<close>

lemma unsubscribes_shape:
  "\<exists>ls. fold call_unsubscribe us w = w \<lparr> store := (store w) \<lparr> listeners := ls \<rparr> \<rparr> \<and>
        set ls \<subseteq> set (listeners (store w)) \<and>
        (distinct (listeners (store w)) \<longrightarrow> distinct ls) \<and>
        (\<forall>l. Unsubscribe l \<notin> set us \<longrightarrow> l \<in> set (listeners (store w)) \<longrightarrow> l \<in> set ls)"
proof (induction us arbitrary: w)
  case Nil
  show ?case
    by (rule exI [of _ "listeners (store w)"]) simp
next
  case (Cons u us)
  obtain k where u: "u = Unsubscribe k"
    by (cases u)
  let ?w = "call_unsubscribe u w"
  from Cons.IH [of ?w] obtain ls where
    ls: "fold call_unsubscribe us ?w = ?w \<lparr> store := (store ?w) \<lparr> listeners := ls \<rparr> \<rparr>"
      "set ls \<subseteq> set (listeners (store ?w))"
      "distinct (listeners (store ?w)) \<longrightarrow> distinct ls"
      "\<forall>l. Unsubscribe l \<notin> set us \<longrightarrow> l \<in> set (listeners (store ?w)) \<longrightarrow> l \<in> set ls"
    by blast
  show ?case
  proof (intro exI [of _ ls] conjI allI impI)
    show "fold call_unsubscribe (u # us) w = w \<lparr> store := (store w) \<lparr> listeners := ls \<rparr> \<rparr>"
      using ls(1) by (simp add: u)
    show "set ls \<subseteq> set (listeners (store w))"
      using ls(2) by (auto simp: u set_delete_def)
    show "distinct ls" if "distinct (listeners (store w))"
      using ls(3) that by (simp add: u set_delete_def distinct_removeAll)
    show "l \<in> set ls" if "Unsubscribe l \<notin> set (u # us)" "l \<in> set (listeners (store w))" for l
      using ls(4) that by (auto simp: u set_delete_def)
  qed
qed

lemma forEach_shape:
  "\<exists>ls called. snd (listeners_forEach beh a b todo w) =
        w \<lparr> store := (store w) \<lparr> listeners := ls \<rparr>,
            calls := calls w @ map (\<lambda>listener. (listener, a, b)) called \<rparr> \<and>
        set ls \<subseteq> set (listeners (store w)) \<and>
        (distinct (listeners (store w)) \<longrightarrow> distinct ls) \<and>
        set called \<subseteq> set todo \<inter> set (listeners (store w)) \<and>
        (distinct todo \<longrightarrow> distinct called)"
proof (induction todo arbitrary: w)
  case Nil
  show ?case
    by (rule exI [of _ "listeners (store w)"], rule exI [of _ "[]"]) simp
next
  case (Cons k todo)
  show ?case
  proof (cases "k \<in> set (listeners (store w))")
    case False
    from Cons.IH [of w] obtain ls called where
      h: "snd (listeners_forEach beh a b todo w) =
            w \<lparr> store := (store w) \<lparr> listeners := ls \<rparr>,
                calls := calls w @ map (\<lambda>listener. (listener, a, b)) called \<rparr>"
        "set ls \<subseteq> set (listeners (store w))"
        "distinct (listeners (store w)) \<longrightarrow> distinct ls"
        "set called \<subseteq> set todo \<inter> set (listeners (store w))"
        "distinct todo \<longrightarrow> distinct called"
      by blast
    show ?thesis
      by (rule exI [of _ ls], rule exI [of _ called]) (use False h in auto)
  next
    case True
    let ?w1 = "w \<lparr> calls := calls w @ [(k, a, b)] \<rparr>"
    let ?w2 = "fold call_unsubscribe (unsubscribes (beh k a b)) ?w1"
    from unsubscribes_shape [of "unsubscribes (beh k a b)" ?w1] obtain ls2 where
      u: "?w2 = ?w1 \<lparr> store := (store ?w1) \<lparr> listeners := ls2 \<rparr> \<rparr>"
        "set ls2 \<subseteq> set (listeners (store w))"
        "distinct (listeners (store w)) \<longrightarrow> distinct ls2"
      by auto
    have l2: "listeners (store ?w2) = ls2" and c2: "calls ?w2 = calls w @ [(k, a, b)]"
      by (subst u(1), simp)+
    show ?thesis
    proof (cases "throws (beh k a b)")
      case (Some e)
      have "snd (listeners_forEach beh a b (k # todo) w) = ?w2"
        using True Some by (simp add: Let_def)
      also have "\<dots> = w \<lparr> store := (store w) \<lparr> listeners := ls2 \<rparr>,
                          calls := calls w @ map (\<lambda>listener. (listener, a, b)) [k] \<rparr>"
        by (subst u(1)) simp
      finally show ?thesis
        using u(2,3) True
        by (intro exI [of _ ls2] exI [of _ "[k]"]) simp
    next
      case None
      from Cons.IH [of ?w2] obtain ls called where
        h: "snd (listeners_forEach beh a b todo ?w2) =
              ?w2 \<lparr> store := (store ?w2) \<lparr> listeners := ls \<rparr>,
                    calls := calls ?w2 @ map (\<lambda>listener. (listener, a, b)) called \<rparr>"
          "set ls \<subseteq> set (listeners (store ?w2))"
          "distinct (listeners (store ?w2)) \<longrightarrow> distinct ls"
          "set called \<subseteq> set todo \<inter> set (listeners (store ?w2))"
          "distinct todo \<longrightarrow> distinct called"
        by blast
      have "snd (listeners_forEach beh a b (k # todo) w) =
              snd (listeners_forEach beh a b todo ?w2)"
        using True None by (simp add: Let_def)
      also have "\<dots> = w \<lparr> store := (store w) \<lparr> listeners := ls \<rparr>,
                          calls := calls w @ map (\<lambda>listener. (listener, a, b)) (k # called) \<rparr>"
        by (subst h(1), subst c2, subst (1 2) u(1)) simp
      finally show ?thesis
        using h(2-5) u(2,3) True
        by (intro exI [of _ ls] exI [of _ "k # called"]) (auto simp: l2)
    qed
  qed
qed

lemma calls_to_append: "calls_to l (xs @ ys) = calls_to l xs @ calls_to l ys"
  by (simp add: calls_to_def)

lemma calls_to_absent:
  "l \<notin> set called \<Longrightarrow> calls_to l (map (\<lambda>listener. (listener, a, b)) called) = []"
  by (auto simp: calls_to_def filter_empty_conv)

lemma unsubscribes_calls: "calls (fold call_unsubscribe us w) = calls w"
  using unsubscribes_shape [of us w] by (elim exE conjE) (erule ssubst, simp)

lemma unsubscribes_keep:
  "Unsubscribe l \<notin> set us \<Longrightarrow> l \<in> set (listeners (store w)) \<Longrightarrow>
     l \<in> set (listeners (store (fold call_unsubscribe us w)))"
proof -
  assume a: "Unsubscribe l \<notin> set us" "l \<in> set (listeners (store w))"
  from unsubscribes_shape [of us w] obtain ls where
    "fold call_unsubscribe us w = w \<lparr> store := (store w) \<lparr> listeners := ls \<rparr> \<rparr>"
    "\<forall>l. Unsubscribe l \<notin> set us \<longrightarrow> l \<in> set (listeners (store w)) \<longrightarrow> l \<in> set ls"
    by blast
  then show ?thesis
    using a by simp
qed

lemma forEach_calls_to_other:
  assumes "l \<notin> set todo \<or> l \<notin> set (listeners (store w))"
  shows "calls_to l (calls (snd (listeners_forEach beh a b todo w))) = calls_to l (calls w)"
proof -
  from forEach_shape [of beh a b todo w] obtain ls called where
    h: "snd (listeners_forEach beh a b todo w) =
          w \<lparr> store := (store w) \<lparr> listeners := ls \<rparr>,
              calls := calls w @ map (\<lambda>listener. (listener, a, b)) called \<rparr>"
      "set called \<subseteq> set todo \<inter> set (listeners (store w))"
    by blast
  have "l \<notin> set called"
    using assms h(2) by auto
  then show ?thesis
    by (subst h(1)) (simp add: calls_to_append calls_to_absent)
qed

lemma forEach_listeners:
  "set (listeners (store (snd (listeners_forEach beh a b todo w)))) \<subseteq> set (listeners (store w))"
proof -
  from forEach_shape [of beh a b todo w] obtain ls called where
    h: "snd (listeners_forEach beh a b todo w) =
          w \<lparr> store := (store w) \<lparr> listeners := ls \<rparr>,
              calls := calls w @ map (\<lambda>listener. (listener, a, b)) called \<rparr>"
      "set ls \<subseteq> set (listeners (store w))"
    by blast
  show ?thesis
    by (subst h(1)) (use h(2) in simp)
qed


lemma forEach_once:
  assumes "distinct todo" and "l \<in> set todo" and "l \<in> set (listeners (store w))"
    and "fst (listeners_forEach beh a b todo w) = Inr ()"
    and "\<forall>k \<in> set (takeWhile (\<lambda>k. k \<noteq> l) todo). Unsubscribe l \<notin> set (unsubscribes (beh k a b))"
  shows "calls_to l (calls (snd (listeners_forEach beh a b todo w)))
           = calls_to l (calls w) @ [(l, a, b)]"
  using assms
proof (induction todo arbitrary: w)
  case Nil
  then show ?case by simp
next
  case (Cons k todo)
  let ?w1 = "w \<lparr> calls := calls w @ [(k, a, b)] \<rparr>"
  let ?w2 = "fold call_unsubscribe (unsubscribes (beh k a b)) ?w1"
  show ?case
  proof (cases "k \<in> set (listeners (store w))")
    case present: True
    have nothrow: "throws (beh k a b) = None"
      using Cons.prems(4) present by (cases "throws (beh k a b)") (simp_all add: Let_def)
    have step: "listeners_forEach beh a b (k # todo) w = listeners_forEach beh a b todo ?w2"
      using present nothrow by (simp add: Let_def)
    have logged: "calls_to l (calls ?w2) = calls_to l (calls w) @ calls_to l [(k, a, b)]"
      by (simp add: unsubscribes_calls calls_to_append)
    show ?thesis
    proof (cases "k = l")
      case True
      then have "l \<notin> set todo"
        using Cons.prems(1) by simp
      then have "calls_to l (calls (snd (listeners_forEach beh a b todo ?w2)))
                   = calls_to l (calls ?w2)"
        by (simp add: forEach_calls_to_other)
      moreover have "calls_to l [(k, a, b)] = [(l, a, b)]"
        using True by (simp add: calls_to_def)
      ultimately show ?thesis
        unfolding step by (simp only: logged)
    next
      case False
      have keep: "l \<in> set (listeners (store ?w2))"
        using Cons.prems(3,5) False by (intro unsubscribes_keep) simp_all
      have "fst (listeners_forEach beh a b todo ?w2) = Inr ()"
        using Cons.prems(4) by (simp only: step)
      then have "calls_to l (calls (snd (listeners_forEach beh a b todo ?w2)))
              = calls_to l (calls ?w2) @ [(l, a, b)]"
        using Cons.prems(1,2,5) False keep by (intro Cons.IH) simp_all
      moreover have "calls_to l [(k, a, b)] = []"
        using False by (simp add: calls_to_def)
      ultimately show ?thesis
        unfolding step by (simp only: logged append_Nil2)
    qed
  next
    case absent: False
    then have "k \<noteq> l"
      using Cons.prems(3) by auto
    then show ?thesis
      using Cons.prems absent by (simp add: Cons.IH)
  qed
qed

section \<open>The reaction and the invariants of a run\<close>

lemma forEach_state:
  "state (store (snd (listeners_forEach beh a b todo w))) = state (store w)"
proof -
  from forEach_shape [of beh a b todo w] obtain ls called where
    h: "snd (listeners_forEach beh a b todo w) =
          w \<lparr> store := (store w) \<lparr> listeners := ls \<rparr>,
              calls := calls w @ map (\<lambda>listener. (listener, a, b)) called \<rparr>"
    by blast
  show ?thesis
    by (subst h) simp
qed

lemma reaction_unfold:
  "reaction onChange beh i x p w =
     (case onChange
             (((heap w @ [heap w ! depsState (store w)])
                 [length (heap w) := js_array_set (heap w ! depsState (store w)) i x])
               ! length (heap w))
             (Some (((heap w @ [heap w ! depsState (store w)])
                 [length (heap w) := js_array_set (heap w ! depsState (store w)) i x])
               ! depsState (store w)))
             (state (store w)) of
        Inl e \<Rightarrow>
          (Inl e, w \<lparr> heap := (heap w @ [heap w ! depsState (store w)])
                 [length (heap w) := js_array_set (heap w ! depsState (store w)) i x] \<rparr>)
      | Inr v \<Rightarrow>
          listeners_forEach beh v (coalesce (state (store w)) v) (listeners (store w))
           (w \<lparr> heap := (heap w @ [heap w ! depsState (store w)])
                 [length (heap w) := js_array_set (heap w ! depsState (store w)) i x],
               store := (store w) \<lparr> prevDepsState := Some (depsState (store w)),
                                    depsState := length (heap w), prevState := state (store w),
                                    state := v \<rparr> \<rparr>))"
  by (simp add: reaction_def alloc_def Let_def split: sum.splits)

lemma reaction_cases:
  obtains (threw) e h where "reaction onChange beh i x p w = (Inl e, w \<lparr> heap := h \<rparr>)"
  | (wrote) v h a where
      "reaction onChange beh i x p w =
         listeners_forEach beh v (coalesce (state (store w)) v) (listeners (store w))
           (w \<lparr> heap := h,
               store := (store w) \<lparr> prevDepsState := Some (depsState (store w)),
                                    depsState := a, prevState := state (store w),
                                    state := v \<rparr> \<rparr>)"
proof -
  let ?h = "(heap w @ [heap w ! depsState (store w)])
                 [length (heap w) := js_array_set (heap w ! depsState (store w)) i x]"
  show thesis
  proof (cases "onChange (?h ! length (heap w)) (Some (?h ! depsState (store w)))
                  (state (store w))")
    case (Inl e)
    then have "reaction onChange beh i x p w = (Inl e, w \<lparr> heap := ?h \<rparr>)"
      by (simp add: reaction_unfold)
    then show ?thesis by (rule threw)
  next
    case (Inr v)
    then have "reaction onChange beh i x p w =
         listeners_forEach beh v (coalesce (state (store w)) v) (listeners (store w))
           (w \<lparr> heap := ?h,
               store := (store w) \<lparr> prevDepsState := Some (depsState (store w)),
                                    depsState := length (heap w), prevState := state (store w),
                                    state := v \<rparr> \<rparr>)"
      by (simp add: reaction_unfold)
    then show ?thesis by (rule wrote)
  qed
qed

lemma reaction_listeners:
  "set (listeners (store (snd (reaction onChange beh i x p w)))) \<subseteq> set (listeners (store w))"
proof (cases rule: reaction_cases [of onChange beh i x p w])
  case (threw e h)
  then show ?thesis by simp
next
  case (wrote v h a)
  show ?thesis
    unfolding wrote
    by (rule subset_trans [OF forEach_listeners]) simp
qed

lemma reaction_calls_to:
  assumes "l \<notin> set (listeners (store w))"
  shows "calls_to l (calls (snd (reaction onChange beh i x p w))) = calls_to l (calls w)"
proof (cases rule: reaction_cases [of onChange beh i x p w])
  case (threw e h)
  then show ?thesis by simp
next
  case (wrote v h a)
  show ?thesis
    unfolding wrote using assms by (subst forEach_calls_to_other) simp_all
qed

lemma reaction_fan_out:
  assumes "reaction onChange beh i x p w = (Inr (), w')"
  obtains w1 where "listeners (store w1) = listeners (store w)" and "calls w1 = calls w"
    and "listeners_forEach beh (getState w') (coalesce (state (store w)) (getState w'))
           (listeners (store w)) w1 = (Inr (), w')"
proof (cases rule: reaction_cases [of onChange beh i x p w])
  case (threw e h)
  then show ?thesis using assms by simp
next
  case (wrote v h a)
  let ?w1 = "w \<lparr> heap := h,
               store := (store w) \<lparr> prevDepsState := Some (depsState (store w)),
                                    depsState := a, prevState := state (store w),
                                    state := v \<rparr> \<rparr>"
  have f: "listeners_forEach beh v (coalesce (state (store w)) v) (listeners (store w)) ?w1
             = (Inr (), w')"
    using wrote assms by simp
  have "state (store (snd (listeners_forEach beh v (coalesce (state (store w)) v)
                             (listeners (store w)) ?w1))) = state (store ?w1)"
    by (rule forEach_state)
  then have "getState w' = v"
    by (simp add: f getState_def)
  then show ?thesis
    using f by (intro that [of ?w1]) simp_all
qed

lemma reaction_eq:
  assumes "wellformed n w" and "i < n"
  shows "reaction onChange beh i x p w =
     (let cur = heap w ! depsState (store w); new = cur[i := x]
      in case onChange new (Some cur) (state (store w)) of
           Inl e \<Rightarrow> (Inl e, w \<lparr> heap := heap w @ [new] \<rparr>)
         | Inr newState \<Rightarrow>
             listeners_forEach beh newState (coalesce (state (store w)) newState)
               (listeners (store w))
               (w \<lparr> heap := heap w @ [new],
                   store := (store w) \<lparr> prevDepsState := Some (depsState (store w)),
                                        depsState := length (heap w),
                                        prevState := state (store w),
                                        state := newState \<rparr> \<rparr>))"
proof -
  have "depsState (store w) < length (heap w)"
    and "i < length (heap w ! depsState (store w))"
    using assms by (simp_all add: wellformed_def)
  then show ?thesis
    by (simp add: reaction_def alloc_def js_array_set_def Let_def nth_append split: sum.splits)
qed

text \<open>What a reaction leaves when \<open>onChange\<close> has returned, whatever the listeners do.\<close>

lemma reaction_wrote:
  assumes "wellformed n w" and "i < n"
    and "onChange ((heap w ! depsState (store w))[i := x])
                  (Some (heap w ! depsState (store w))) (state (store w)) = Inr v"
  shows "\<exists>ls called. snd (reaction onChange beh i x p w) =
           w \<lparr> heap := heap w @ [(heap w ! depsState (store w))[i := x]],
               store := (store w) \<lparr> listeners := ls,
                                    prevDepsState := Some (depsState (store w)),
                                    depsState := length (heap w),
                                    prevState := state (store w),
                                    state := v \<rparr>,
               calls := calls w @
                   map (\<lambda>listener. (listener, v, coalesce (state (store w)) v)) called \<rparr> \<and>
           set ls \<subseteq> set (listeners (store w)) \<and> distinct ls \<and>
           set called \<subseteq> set (listeners (store w)) \<and> distinct called"
proof -
  let ?w1 = "w \<lparr> heap := heap w @ [(heap w ! depsState (store w))[i := x]],
               store := (store w) \<lparr> prevDepsState := Some (depsState (store w)),
                                    depsState := length (heap w),
                                    prevState := state (store w),
                                    state := v \<rparr> \<rparr>"
  have d: "distinct (listeners (store w))"
    using assms(1) by (simp add: wellformed_def)
  have r: "reaction onChange beh i x p w =
       listeners_forEach beh v (coalesce (state (store w)) v) (listeners (store w)) ?w1"
    using assms(3) by (simp add: reaction_eq [OF assms(1,2)])
  from forEach_shape [of beh v "coalesce (state (store w)) v" "listeners (store w)" ?w1]
  obtain ls called where
    h: "snd (listeners_forEach beh v (coalesce (state (store w)) v) (listeners (store w)) ?w1) =
          ?w1 \<lparr> store := (store ?w1) \<lparr> listeners := ls \<rparr>,
                calls := calls ?w1 @
                  map (\<lambda>listener. (listener, v, coalesce (state (store w)) v)) called \<rparr>"
      "set ls \<subseteq> set (listeners (store ?w1))"
      "distinct (listeners (store ?w1)) \<longrightarrow> distinct ls"
      "set called \<subseteq> set (listeners (store w)) \<inter> set (listeners (store ?w1))"
      "distinct (listeners (store w)) \<longrightarrow> distinct called"
    by blast
  show ?thesis
    apply (rule exI [of _ ls], rule exI [of _ called])
    apply (subst r, subst h(1))
    using h(2-5) d apply simp
    done
qed


lemma map_source_getState: "map source_getState vs = vs"
  by (induction vs) (simp_all add: source_getState_def)

lemma derive_Inr:
  assumes "derive vs onChange = Inr w"
  shows "\<exists>st. onChange vs None Null = Inr st \<and>
           w = \<lparr> heap = [vs], sources = vs,
                 store = \<lparr> listeners = [], depsState = 0, prevDepsState = None, state = st,
                           prevState = Null, depsSubs = [0 ..< length vs] \<rparr>,
                 calls = [] \<rparr>"
  using assms
  by (auto simp: derive_def alloc_def new_Set_def map_source_getState Let_def
           split: sum.splits)

lemma derive_wellformed: "derive vs onChange = Inr w \<Longrightarrow> wellformed (length vs) w"
  by (drule derive_Inr) (auto simp: wellformed_def)

lemma derive_consistent: "derive vs onChange = Inr w \<Longrightarrow> consistent onChange w"
  by (drule derive_Inr) (auto simp: consistent_def)

lemma reaction_invariant:
  assumes "wellformed n w" and "consistent onChange w" and "i < n"
  shows "wellformed n (snd (reaction onChange beh i x p w)) \<and>
         consistent onChange (snd (reaction onChange beh i x p w))"
proof (cases "onChange ((heap w ! depsState (store w))[i := x])
                  (Some (heap w ! depsState (store w))) (state (store w))")
  case (Inl e)
  then have "snd (reaction onChange beh i x p w)
               = w \<lparr> heap := heap w @ [(heap w ! depsState (store w))[i := x]] \<rparr>"
    by (simp add: reaction_eq [OF assms(1,3)])
  then show ?thesis
    using assms(1,2)
    by (auto simp: wellformed_def consistent_def nth_append split: option.splits)
next
  case (Inr v)
  from reaction_wrote [where onChange = onChange and beh = beh and p = p, OF assms(1,3) Inr]
  obtain ls called where
    h: "snd (reaction onChange beh i x p w) =
           w \<lparr> heap := heap w @ [(heap w ! depsState (store w))[i := x]],
               store := (store w) \<lparr> listeners := ls,
                                    prevDepsState := Some (depsState (store w)),
                                    depsState := length (heap w),
                                    prevState := state (store w),
                                    state := v \<rparr>,
               calls := calls w @
                   map (\<lambda>listener. (listener, v, coalesce (state (store w)) v)) called \<rparr>"
      "distinct ls"
    by blast
  show ?thesis
    using assms Inr h(2)
    by (subst (1 2) h(1)) (auto simp: wellformed_def consistent_def nth_append)
qed

lemma exec_invariant:
  assumes "wellformed n w" and "consistent onChange w"
  shows "wellformed n (exec onChange beh ev w) \<and> consistent onChange (exec onChange beh ev w)"
proof (cases ev)
  case (SourceSet i x)
  have "wellformed n (w \<lparr> sources := (sources w)[i := x] \<rparr>)"
    using assms by (simp add: wellformed_def split: option.splits)
  moreover have "consistent onChange (w \<lparr> sources := (sources w)[i := x] \<rparr>)"
    using assms by (simp add: consistent_def)
  moreover have "i < length (sources w) \<Longrightarrow> i < n"
    using assms by (simp add: wellformed_def)
  ultimately show ?thesis
    using assms SourceSet by (simp add: source_setState_def reaction_invariant)
next
  case (Subscribe l)
  then show ?thesis
    using assms
    by (simp add: subscribe_def wellformed_def consistent_def new_Set_distinct
             split: option.splits)
next
  case (CallUnsubscribe u)
  then show ?thesis
    using assms
    by (cases u)
       (simp add: wellformed_def consistent_def set_delete_def distinct_removeAll
             split: option.splits)
next
  case SetState
  then show ?thesis
    using assms by (simp add: setState_def)
qed

lemma run_invariant:
  "wellformed n w \<Longrightarrow> consistent onChange w \<Longrightarrow>
     wellformed n (run onChange beh evs w) \<and> consistent onChange (run onChange beh evs w)"
  unfolding run_def
  by (induction evs arbitrary: w) (simp_all add: exec_invariant)


lemma source_setState_listeners:
  "set (listeners (store (snd (source_setState onChange beh i x w)))) \<subseteq> set (listeners (store w))"
  using reaction_listeners [of onChange beh i x "sources w ! i" "w \<lparr> sources := (sources w)[i := x] \<rparr>"]
  by (simp add: source_setState_def)

lemma source_setState_calls_to:
  "l \<notin> set (listeners (store w)) \<Longrightarrow>
     calls_to l (calls (snd (source_setState onChange beh i x w))) = calls_to l (calls w)"
  by (simp add: source_setState_def reaction_calls_to)

lemma run_source_updates_calls_to:
  "list_all is_source_update evs \<Longrightarrow> l \<notin> set (listeners (store w)) \<Longrightarrow>
     calls_to l (calls (run onChange beh evs w)) = calls_to l (calls w)"
proof (induction evs arbitrary: w)
  case Nil
  then show ?case by (simp add: run_def)
next
  case (Cons e evs)
  from Cons.prems(1) obtain i x where e: "e = SourceSet i x"
    by (cases e) simp_all
  let ?w = "snd (source_setState onChange beh i x w)"
  have "l \<notin> set (listeners (store ?w))"
    using Cons.prems(2) source_setState_listeners [of onChange beh i x w] by auto
  moreover have "list_all is_source_update evs"
    using Cons.prems(1) by simp
  ultimately have "calls_to l (calls (run onChange beh evs ?w)) = calls_to l (calls ?w)"
    by (rule Cons.IH [rotated])
  then show ?case
    using Cons.prems(2) by (simp add: run_def e source_setState_calls_to)
qed



lemma source_setState_throw:
  assumes "wellformed n w" and "i < n"
    and "onChange ((heap w ! depsState (store w))[i := x])
                  (Some (heap w ! depsState (store w))) (state (store w)) = Inl e"
  shows "source_setState onChange beh i x w =
      (Inl e, w \<lparr> heap := heap w @ [(heap w ! depsState (store w))[i := x]],
                  sources := (sources w)[i := x] \<rparr>)"
proof -
  let ?w = "w \<lparr> sources := (sources w)[i := x] \<rparr>"
  have wf: "wellformed n ?w"
    using assms(1) by (simp add: wellformed_def split: option.splits)
  have "i < length (sources w)"
    using assms(1,2) by (simp add: wellformed_def)
  then show ?thesis
    using assms(3) by (simp add: source_setState_def reaction_eq [OF wf assms(2)])
qed

text \<open>A completed reaction calls a listener of the set exactly once when no listener
  before it in the set calls its unsubscribe closure.\<close>

lemma reaction_once:
  assumes "reaction onChange beh i x p w = (Inr (), w')"
    and "distinct (listeners (store w))" and "l \<in> set (listeners (store w))"
    and "\<forall>k \<in> set (takeWhile (\<lambda>k. k \<noteq> l) (listeners (store w))).
           Unsubscribe l \<notin>
             set (unsubscribes (beh k (getState w') (coalesce (state (store w)) (getState w'))))"
  shows "take (length (calls w)) (calls w') = calls w \<and>
         calls_to l (drop (length (calls w)) (calls w'))
           = [(l, getState w', coalesce (state (store w)) (getState w'))]"
proof -
  let ?a = "getState w'" and ?b = "coalesce (state (store w)) (getState w')"
  from reaction_fan_out [OF assms(1)] obtain w1 where
    w1: "listeners (store w1) = listeners (store w)" "calls w1 = calls w"
      "listeners_forEach beh ?a ?b (listeners (store w)) w1 = (Inr (), w')"
    by blast
  from forEach_shape [of beh ?a ?b "listeners (store w)" w1] obtain ls called where
    h: "snd (listeners_forEach beh ?a ?b (listeners (store w)) w1) =
        w1 \<lparr> store := (store w1) \<lparr> listeners := ls \<rparr>,
             calls := calls w1 @ map (\<lambda>listener. (listener, ?a, ?b)) called \<rparr>"
    by blast
  have "calls (snd (listeners_forEach beh ?a ?b (listeners (store w)) w1))
          = calls w1 @ map (\<lambda>listener. (listener, ?a, ?b)) called"
    by (subst h) simp
  then have c: "calls w' = calls w @ map (\<lambda>listener. (listener, ?a, ?b)) called"
    by (simp add: w1(2,3))
  have "calls_to l (calls (snd (listeners_forEach beh ?a ?b (listeners (store w)) w1)))
          = calls_to l (calls w1) @ [(l, ?a, ?b)]"
    using assms(2-4) by (intro forEach_once) (simp_all add: w1)
  then have "calls_to l (map (\<lambda>listener. (listener, ?a, ?b)) called) = [(l, ?a, ?b)]"
    by (simp add: w1(2,3) c calls_to_append)
  then show ?thesis
    by (simp add: c)
qed

lemmas ev = derive_def alloc_def new_Set_def set_add_def set_delete_def source_getState_def
  reaction_def source_setState_def subscribe_def setState_def run_def getState_def
  js_array_set_def example_sum_def example_world_def example_guarded_def guarded_world_def
  consistent_def calls_to_def observers_def example_unsubscriber_def example_thrower_def Let_def

section \<open>The claims\<close>

text \<open>
  Claim C1. When \<open>onChange\<close> returns a value \<open>v\<close> on the current values of the source
  stores with \<open>null\<close> for both previous arguments, \<open>derive\<close> returns a store whose
  \<open>getState()\<close> is \<open>v\<close>, whose \<open>depsState\<close> is the tuple of those values, whose
  \<open>prevDepsState\<close> and \<open>prevState\<close> are \<open>null\<close>, with no listener and no call made.
\<close>
theorem derive_initial_state:
  assumes "onChange (map source_getState stores) None Null = Inr v"
  shows "\<exists>w. derive stores onChange = Inr w \<and> getState w = v \<and>
           heap w ! depsState (store w) = map source_getState stores \<and>
           prevDepsState (store w) = None \<and> prevState (store w) = Null \<and>
           listeners (store w) = [] \<and> calls w = []"
  using assms by (simp add: derive_def alloc_def new_Set_def getState_def)

theorem derive_initial_state_witness:
  "example_sum (map source_getState [Val 2, Val 3]) None Null = Inr (Val 5) \<and>
   (\<exists>w :: (int, int, nat) world. derive [Val 2, Val 3] example_sum = Inr w \<and>
      getState w = Val 5 \<and>
      heap w ! depsState (store w) = map source_getState [Val 2, Val 3] \<and>
      prevDepsState (store w) = None \<and> prevState (store w) = Null \<and>
      listeners (store w) = [] \<and> calls w = [])"
proof -
  have h: "example_sum (map source_getState [Val 2, Val 3]) None Null = Inr (Val 5)"
    by (simp add: example_sum_def source_getState_def)
  show ?thesis
    using h derive_initial_state [of example_sum "[Val 2, Val 3]" "Val 5"] by simp
qed

text \<open>
  Claim C2. In every world reached from a constructed derived store by any sequence of
  source updates, subscriptions, unsubscriptions and \<open>setState\<close> attempts, whatever the
  listeners do when they are called, \<open>getState()\<close> is \<open>onChange\<close> of the stored
  \<open>depsState\<close>, \<open>prevDepsState\<close> and \<open>prevState\<close>.
\<close>
theorem derived_state_consistent:
  assumes "derive stores onChange = Inr w0" and "w = run onChange beh evs w0"
  shows "onChange (heap w ! depsState (store w))
                  (map_option (\<lambda>a. heap w ! a) (prevDepsState (store w)))
                  (prevState (store w))
         = Inr (getState w)"
proof -
  have "consistent onChange w"
    using assms run_invariant derive_wellformed derive_consistent by blast
  then show ?thesis
    by (simp add: consistent_def getState_def)
qed

theorem derived_state_consistent_witness:
  "derive [Val 2, Val 3] example_sum = Inr example_world \<and>
   example_sum [Val 1, Val 10] (Some [Val 2, Val 10]) (Val 12) =
     Inr (getState (run example_sum example_unsubscriber
            [Subscribe 7, Subscribe 8, SourceSet 1 (Val 10), SetState, SourceSet 0 (Val 1)]
            example_world))"
proof -
  have d: "derive [Val 2, Val 3] example_sum = Inr example_world"
    by (simp add: ev)
  show ?thesis
    using d derived_state_consistent [OF d refl, of example_unsubscriber
        "[Subscribe 7, Subscribe 8, SourceSet 1 (Val 10), SetState, SourceSet 0 (Val 1)]"]
    by (simp add: ev)
qed

text \<open>
  Claim C3. \<open>setState\<close> of the facade fails with \<open>SetStateError\<close> for every argument
  and leaves the world, hence \<open>getState()\<close> and every bookkeeping field, as it was.
\<close>
theorem setState_read_only:
  "fst (setState arg w) = Inl (SetStateError ''`setState` is not available in derived store'') \<and>
   snd (setState arg w) = w \<and>
   getState (snd (setState arg w)) = getState w"
  by (simp add: setState_def)



text \<open>
  Claim C5 says that two \<open>subscribe\<close> calls with the same listener make two
  registrations, one of which survives the unsubscription of the other. The listeners
  are held in a \<open>Set\<close>: in the example scenario, listener 7 is subscribed twice, the set
  holds it once, and after one call of an unsubscribe closure a source update calls
  nobody.
\<close>
theorem subscribe_same_listener_counterexample:
  "derive [Val 2, Val 3] example_sum = Inr example_world \<and>
   listeners (store (run example_sum observers [Subscribe 7, Subscribe 7] example_world)) = [7] \<and>
   calls (run example_sum observers
            [Subscribe 7, Subscribe 7,
             CallUnsubscribe (fst (subscribe 7 (snd (subscribe 7 example_world)))),
             SourceSet 0 (Val 10)] example_world) = [] \<and>
   getState (run example_sum observers
            [Subscribe 7, Subscribe 7,
             CallUnsubscribe (fst (subscribe 7 (snd (subscribe 7 example_world)))),
             SourceSet 0 (Val 10)] example_world) = Val 13"
  by (simp add: ev)

text \<open>
  Claim C5, amended. Two \<open>subscribe\<close> calls with the same listener make one
  registration: the second call leaves the world as the first left it and returns the
  same closure, and the listener is in the set once. While it is registered, a source
  update that completes calls it exactly once, with the new state and the previous
  state, unless a listener before it in the set calls its unsubscribe closure during
  that fan-out. After one call of the closure the listener is not in the set and a
  source update does not call it.
\<close>
theorem subscribe_same_listener_one_registration:
  "snd (subscribe l (snd (subscribe l w))) = snd (subscribe l w) \<and>
   fst (subscribe l (snd (subscribe l w))) = fst (subscribe l w) \<and>
   distinct (listeners (store (snd (subscribe l w)))) \<and>
   l \<in> set (listeners (store (snd (subscribe l w)))) \<and>
   (reaction onChange beh i x p (snd (subscribe l (snd (subscribe l w)))) = (Inr (), w') \<and>
    (\<forall>k \<in> set (takeWhile (\<lambda>k. k \<noteq> l) (listeners (store (snd (subscribe l w))))).
        Unsubscribe l \<notin>
          set (unsubscribes (beh k (getState w') (coalesce (getState w) (getState w')))))
    \<longrightarrow> take (length (calls w)) (calls w') = calls w \<and>
        calls_to l (drop (length (calls w)) (calls w'))
          = [(l, getState w', coalesce (getState w) (getState w'))]) \<and>
   l \<notin> set (listeners (store (call_unsubscribe (fst (subscribe l w))
                                  (snd (subscribe l (snd (subscribe l w))))))) \<and>
   calls_to l (calls (snd (source_setState onChange beh j y
       (call_unsubscribe (fst (subscribe l w)) (snd (subscribe l (snd (subscribe l w))))))))
     = calls_to l (calls w)"
proof -
  let ?ls = "new_Set (listeners (store w) @ [l])"
  let ?w2 = "snd (subscribe l w)"
  have m: "l \<in> set ?ls" and d: "distinct ?ls"
    by (simp_all add: new_Set_set new_Set_distinct)
  have ls2: "listeners (store ?w2) = ?ls" and c2: "calls ?w2 = calls w"
    and s2: "state (store ?w2) = state (store w)"
    by (simp_all add: subscribe_def)
  have "new_Set (?ls @ [l]) = ?ls"
    using m d by (simp add: new_Set_snoc new_Set_id set_add_def)
  then have twice: "snd (subscribe l ?w2) = ?w2"
    by (simp add: subscribe_def)
  have once: "take (length (calls w)) (calls w') = calls w \<and>
        calls_to l (drop (length (calls w)) (calls w'))
          = [(l, getState w', coalesce (getState w) (getState w'))]"
    if r: "reaction onChange beh i x p ?w2 = (Inr (), w')"
    and q: "\<forall>k \<in> set (takeWhile (\<lambda>k. k \<noteq> l) (listeners (store ?w2))).
        Unsubscribe l \<notin>
          set (unsubscribes (beh k (getState w') (coalesce (getState w) (getState w'))))"
    using reaction_once [OF r, of l] q m d by (simp add: ls2 c2 s2 getState_def)
  have gone: "l \<notin> set (listeners (store (call_unsubscribe (fst (subscribe l w)) ?w2)))"
    by (simp add: subscribe_def set_delete_def)
  have "calls_to l (calls (snd (source_setState onChange beh j y
       (call_unsubscribe (fst (subscribe l w)) ?w2))))
     = calls_to l (calls (call_unsubscribe (fst (subscribe l w)) ?w2))"
    using gone by (rule source_setState_calls_to)
  also have "\<dots> = calls_to l (calls w)"
    by (simp add: subscribe_def)
  finally have quiet: "calls_to l (calls (snd (source_setState onChange beh j y
       (call_unsubscribe (fst (subscribe l w)) ?w2)))) = calls_to l (calls w)" .
  have same: "fst (subscribe l ?w2) = fst (subscribe l w)"
    by (simp add: subscribe_def)
  have m2: "l \<in> set (listeners (store ?w2))" and d2: "distinct (listeners (store ?w2))"
    using m d by (simp_all add: ls2)
  show ?thesis
    unfolding twice using same m2 d2 gone quiet once by blast
qed

theorem subscribe_same_listener_one_registration_witness:
  "fst (reaction example_sum observers 0 (Val 10) (Val 2)
          (snd (subscribe 7 (snd (subscribe 7 example_world))))) = Inr () \<and>
   takeWhile (\<lambda>k. k \<noteq> 7) (listeners (store (snd (subscribe 7 example_world)))) = [] \<and>
   calls (snd (reaction example_sum observers 0 (Val 10) (Val 2)
          (snd (subscribe 7 (snd (subscribe 7 example_world)))))) = [(7, Val 13, Val 5)] \<and>
   calls_to 7 (drop (length (calls example_world))
      (calls (snd (reaction example_sum observers 0 (Val 10) (Val 2)
          (snd (subscribe 7 (snd (subscribe 7 example_world))))))))
     = [(7, Val 13, Val 5)]"
proof -
  let ?w2 = "snd (subscribe 7 (snd (subscribe 7 example_world)))"
  let ?r = "reaction example_sum observers 0 (Val 10) (Val 2) ?w2"
  have r: "?r = (Inr (), snd ?r)" and f: "fst ?r = Inr ()"
    by (simp_all add: ev)
  have t: "takeWhile (\<lambda>k. k \<noteq> 7) (listeners (store (snd (subscribe 7 example_world)))) = []"
    by (simp add: ev)
  have u: "\<forall>k \<in> set (takeWhile (\<lambda>k. k \<noteq> 7)
                        (listeners (store (snd (subscribe 7 example_world))))).
        Unsubscribe 7 \<notin> set (unsubscribes
           (observers k (getState (snd ?r))
              (coalesce (getState example_world) (getState (snd ?r)))))"
    by (simp add: t)
  have "calls_to 7 (drop (length (calls example_world)) (calls (snd ?r)))
          = [(7, getState (snd ?r), coalesce (getState example_world) (getState (snd ?r)))]"
    using r u subscribe_same_listener_one_registration
        [of 7 example_world example_sum observers 0 "Val 10" "Val 2" "snd ?r" 0 "Val 10"]
    by blast
  moreover have "calls (snd ?r) = [(7, Val 13, Val 5)]"
    by (simp add: ev)
  moreover have "getState (snd ?r) = Val 13" and "getState example_world = Val 5"
    by (simp_all add: ev)
  ultimately show ?thesis
    using f t by simp
qed

text \<open>
  Claim C6 says that a throwing \<open>onChange\<close> leaves the bookkeeping store with \<open>state\<close>
  and \<open>depsState\<close> out of step. With the guarded combine function and one source
  holding 1, setting the source to 0 makes \<open>onChange\<close> throw: the error reaches the
  caller, and the bookkeeping store is the one before the call, \<open>state\<close> 1 and
  \<open>depsState\<close> \<open>[1]\<close>, consistent with each other.
\<close>
theorem combine_throw_counterexample:
  "derive [Val 1] example_guarded = Inr guarded_world \<and>
   fst (source_setState example_guarded observers 0 (Val 0) guarded_world) = Inl (Thrown ()) \<and>
   store (snd (source_setState example_guarded observers 0 (Val 0) guarded_world))
     = store guarded_world \<and>
   state (store (snd (source_setState example_guarded observers 0 (Val 0) guarded_world)))
     = Val 1 \<and>
   heap (snd (source_setState example_guarded observers 0 (Val 0) guarded_world)) !
     depsState (store (snd (source_setState example_guarded observers 0 (Val 0) guarded_world)))
     = [Val 1] \<and>
   consistent example_guarded
     (snd (source_setState example_guarded observers 0 (Val 0) guarded_world))"
  by (simp add: ev)

text \<open>
  Claim C6, amended. In a world reached from a constructed derived store, when
  \<open>onChange\<close> throws on the new tuple of a source update, the error reaches the caller
  of the source's \<open>setState\<close>, no listener is called, and the bookkeeping store is left
  as it was before the update: \<open>getState()\<close> and the tuple \<open>depsState\<close> refers to are
  unchanged and still consistent with each other. The source store itself holds the new
  value, which the derived store has missed.
\<close>
theorem combine_throw_leaves_bookkeeping:
  assumes "derive stores onChange = Inr w0" and "w = run onChange beh evs w0"
    and "i < length stores"
    and "onChange ((heap w ! depsState (store w))[i := x])
                  (Some (heap w ! depsState (store w))) (getState w) = Inl e"
  shows "fst (source_setState onChange beh i x w) = Inl e \<and>
         store (snd (source_setState onChange beh i x w)) = store w \<and>
         calls (snd (source_setState onChange beh i x w)) = calls w \<and>
         getState (snd (source_setState onChange beh i x w)) = getState w \<and>
         heap (snd (source_setState onChange beh i x w)) ! depsState (store w)
           = heap w ! depsState (store w) \<and>
         sources (snd (source_setState onChange beh i x w)) = (sources w)[i := x] \<and>
         consistent onChange (snd (source_setState onChange beh i x w))"
proof -
  have wf: "wellformed (length stores) w" and c: "consistent onChange w"
    using assms(1,2) run_invariant derive_wellformed derive_consistent by blast+
  have eq: "source_setState onChange beh i x w =
      (Inl e, w \<lparr> heap := heap w @ [(heap w ! depsState (store w))[i := x]],
                  sources := (sources w)[i := x] \<rparr>)"
    using assms(4) by (simp add: source_setState_throw [OF wf assms(3)] getState_def)
  have "consistent onChange (exec onChange beh (SourceSet i x) w)"
    using wf c by (simp only: exec_invariant)
  then show ?thesis
    using wf by (simp add: eq getState_def wellformed_def nth_append)
qed

theorem combine_throw_leaves_bookkeeping_witness:
  "derive [Val 1] example_guarded = Inr guarded_world \<and>
   (0::nat) < length [Val 1 :: int jsval] \<and>
   fst (source_setState example_guarded observers 0 (Val 0)
          (run example_guarded observers [Subscribe 7, SourceSet 0 (Val 4)] guarded_world))
     = Inl (Thrown ()) \<and>
   getState (snd (source_setState example_guarded observers 0 (Val 0)
          (run example_guarded observers [Subscribe 7, SourceSet 0 (Val 4)] guarded_world)))
     = Val 4 \<and>
   calls (snd (source_setState example_guarded observers 0 (Val 0)
          (run example_guarded observers [Subscribe 7, SourceSet 0 (Val 4)] guarded_world)))
     = [(7, Val 4, Val 1)]"
proof -
  have d: "derive [Val 1] example_guarded = Inr guarded_world"
    by (simp add: ev)
  have n: "(0::nat) < length [Val 1 :: int jsval]"
    by simp
  let ?w = "run example_guarded observers [Subscribe 7, SourceSet 0 (Val 4)] guarded_world"
  have t: "example_guarded ((heap ?w ! depsState (store ?w))[0 := Val 0])
             (Some (heap ?w ! depsState (store ?w))) (getState ?w) = Inl (Thrown ())"
    by (simp add: ev)
  show ?thesis
    using d combine_throw_leaves_bookkeeping [OF d refl n t]
    by (simp add: ev)
qed







text \<open>
  Claim C9. After the closure returned by \<open>subscribe\<close> for a listener has been called,
  no sequence of source updates adds a call to that listener to the log, whatever the
  listeners do when they are called.
\<close>
theorem unsubscribe_stops_notifications:
  assumes "list_all is_source_update evs"
  shows "calls_to l (calls (run onChange beh evs (call_unsubscribe (fst (subscribe l w0)) w)))
         = calls_to l (calls w)"
proof -
  let ?w = "call_unsubscribe (fst (subscribe l w0)) w"
  have "l \<notin> set (listeners (store ?w))"
    by (simp add: subscribe_def set_delete_def)
  with assms have "calls_to l (calls (run onChange beh evs ?w)) = calls_to l (calls ?w)"
    by (rule run_source_updates_calls_to)
  then show ?thesis
    by (simp add: subscribe_def)
qed

theorem unsubscribe_stops_notifications_witness:
  "list_all is_source_update [SourceSet 0 (Val 10), SourceSet 1 (Val 4) :: (int, nat) event] \<and>
   calls_to 7 (calls (run example_sum observers [SourceSet 0 (Val 10), SourceSet 1 (Val 4)]
      (call_unsubscribe (fst (subscribe 7 example_world))
         (run example_sum observers [Subscribe 7, Subscribe 8, SourceSet 1 (Val 1)]
            example_world))))
     = [(7, Val 3, Val 5)] \<and>
   calls_to 8 (calls (run example_sum observers [SourceSet 0 (Val 10), SourceSet 1 (Val 4)]
      (call_unsubscribe (fst (subscribe 7 example_world))
         (run example_sum observers [Subscribe 7, Subscribe 8, SourceSet 1 (Val 1)]
            example_world))))
     = [(8, Val 3, Val 5), (8, Val 11, Val 3), (8, Val 14, Val 11)]"
proof -
  have q: "list_all is_source_update [SourceSet 0 (Val 10), SourceSet 1 (Val 4) :: (int, nat) event]"
    by simp
  show ?thesis
    using unsubscribe_stops_notifications [OF q, of 7 example_sum observers example_world
        "run example_sum observers [Subscribe 7, Subscribe 8, SourceSet 1 (Val 1)] example_world"]
    by (simp add: ev)
qed

text \<open>
  Claim C10. Calling an unsubscribe closure once more changes nothing: the world after
  two calls in a row is the world after one, and a call made at any later time, when the
  listener is not in the set, returns the world it was given. The closure has no failing
  branch.
\<close>
theorem unsubscribe_idempotent:
  "call_unsubscribe u (call_unsubscribe u w) = call_unsubscribe u w \<and>
   (l \<notin> set (listeners (store w')) \<longrightarrow> call_unsubscribe (fst (subscribe l w0)) w' = w')"
  by (cases u) (simp_all add: set_delete_def subscribe_def)

theorem unsubscribe_idempotent_witness:
  "(7::nat) \<notin> set (listeners (store
       (run example_sum observers [Subscribe 7, Subscribe 8, CallUnsubscribe (Unsubscribe 7),
                         SourceSet 0 (Val 10)] example_world))) \<and>
   call_unsubscribe (fst (subscribe 7 example_world))
       (run example_sum observers [Subscribe 7, Subscribe 8, CallUnsubscribe (Unsubscribe 7),
                         SourceSet 0 (Val 10)] example_world)
     = run example_sum observers [Subscribe 7, Subscribe 8, CallUnsubscribe (Unsubscribe 7),
                        SourceSet 0 (Val 10)] example_world \<and>
   listeners (store (call_unsubscribe (fst (subscribe 7 example_world))
       (run example_sum observers [Subscribe 7, Subscribe 8, CallUnsubscribe (Unsubscribe 7),
                         SourceSet 0 (Val 10)] example_world))) = [8]"
proof -
  let ?w = "run example_sum observers [Subscribe 7, Subscribe 8, CallUnsubscribe (Unsubscribe 7),
                             SourceSet 0 (Val 10)] example_world"
  have m: "(7::nat) \<notin> set (listeners (store ?w))"
    by (simp add: ev)
  have "call_unsubscribe (fst (subscribe 7 example_world)) ?w = ?w"
    using m unsubscribe_idempotent [of "Unsubscribe 7" ?w 7 ?w example_world] by blast
  moreover have "listeners (store ?w) = [8]"
    by (simp add: ev)
  ultimately show ?thesis
    using m by simp
qed

end
